theory Spec2Isabelle
  imports Complex_Main "HOL-Library.Product_Lexorder" "HOL-Library.Multiset" "HOL-Library.AList"
begin

section \<open>Documents\<close>

text \<open>
  A document is what the loader hands over for a JSON text: \<^verbatim>\<open>None\<close>, a \<^verbatim>\<open>bool\<close>, a number
  (an \<^verbatim>\<open>int\<close> or a \<^verbatim>\<open>Decimal\<close>, both exact, hence a rational), a \<^verbatim>\<open>str\<close>, a \<^verbatim>\<open>list\<close> or a
  \<^verbatim>\<open>dict\<close>. A \<^verbatim>\<open>dict\<close> keeps its keys in insertion order, so it is an association list;
  a Python \<^verbatim>\<open>dict\<close> never holds a key twice.
\<close>

datatype json =
    JNull
  | JBool bool
  | JNum rat
  | JStr string
  | JArr "json list"
  | JObj "(string \<times> json) list"

text \<open>\<^verbatim>\<open>d.keys()\<close>, and \<^verbatim>\<open>d[key]\<close> for a key that \<^verbatim>\<open>d\<close> holds.\<close>

definition keys :: "(string \<times> json) list \<Rightarrow> string list" where
  "keys d = map fst d"

definition item :: "(string \<times> json) list \<Rightarrow> string \<Rightarrow> json" where
  "item d key = the (map_of d key)"

section \<open>Counting the nodes of every level\<close>

text \<open>
  \<^verbatim>\<open>levels = defaultdict(int)\<close> is a dictionary from level to count, in insertion order.
  \<^verbatim>\<open>levels[level] += 1\<close> reads the count (0 for a level not yet seen) and stores it
  incremented: a level already there keeps its place, a new level goes to the end.
\<close>

type_synonym levels = "(int \<times> int) list"

definition bump :: "levels \<Rightarrow> int \<Rightarrow> levels" where
  "bump levels level =
     AList.update level ((case map_of levels level of None \<Rightarrow> 0 | Some cnt \<Rightarrow> cnt) + 1) levels"

text \<open>
  \<^verbatim>\<open>traverse\<close> with the dictionary it updates passed in and returned. The two loops
  \<^verbatim>\<open>for key in node: traverse(node[key], level + 1)\<close> and
  \<^verbatim>\<open>for item in node: traverse(item, level + 1)\<close> are \<open>traverse_items\<close> and
  \<open>traverse_elems\<close>.
\<close>

fun traverse :: "json \<Rightarrow> int \<Rightarrow> levels \<Rightarrow> levels"
  and traverse_items :: "(string \<times> json) list \<Rightarrow> int \<Rightarrow> levels \<Rightarrow> levels"
  and traverse_elems :: "json list \<Rightarrow> int \<Rightarrow> levels \<Rightarrow> levels"
where
  "traverse (JObj node) level levels = traverse_items node (level + 1) (bump levels level)"
| "traverse (JArr node) level levels = traverse_elems node (level + 1) (bump levels level)"
| "traverse JNull level levels = bump levels level"
| "traverse (JBool b) level levels = bump levels level"
| "traverse (JNum n) level levels = bump levels level"
| "traverse (JStr s) level levels = bump levels level"
| "traverse_items [] level levels = levels"
| "traverse_items ((key, v) # rest) level levels =
     traverse_items rest level (traverse v level levels)"
| "traverse_elems [] level levels = levels"
| "traverse_elems (v # rest) level levels =
     traverse_elems rest level (traverse v level levels)"

text \<open>\<^verbatim>\<open>sorted(levels.items())\<close>: the pairs (level, count) in the order of tuples.\<close>

definition parse_json_structure :: "json \<Rightarrow> (int \<times> int) list" where
  "parse_json_structure json_data = sort (traverse json_data 1 [])"

section \<open>Finding the differences\<close>

text \<open>
  An entry of the result is the dictionary \<^verbatim>\<open>{'body1': ..., 'body2': ...}\<close>; the rows of
  the summary have the same two fields, holding counts.
\<close>

record 'a bodies =
  body1 :: 'a
  body2 :: 'a

text \<open>\<^verbatim>\<open>str(index)\<close> for an index of \<^verbatim>\<open>range\<close>: the decimal digits.\<close>

definition digit :: "nat \<Rightarrow> char" where
  "digit d = ''0123456789'' ! d"

fun str_nat :: "nat \<Rightarrow> string" where
  "str_nat n = (if n < 10 then [digit n] else str_nat (n div 10) @ [digit (n mod 10)])"

text \<open>
  \<^verbatim>\<open>d1 != d2\<close> where the last branch of \<^verbatim>\<open>find_differences\<close> evaluates it: the operands are
  never two dictionaries and never two lists there. Values of different types are unequal,
  except that \<^verbatim>\<open>bool\<close> is a subclass of \<^verbatim>\<open>int\<close>: \<^verbatim>\<open>True == 1\<close> and \<^verbatim>\<open>False == 0\<close>, also
  against a \<^verbatim>\<open>Decimal\<close>.
\<close>

fun py_ne :: "json \<Rightarrow> json \<Rightarrow> bool" where
  "py_ne (JBool b) (JNum n) = (of_bool b \<noteq> n)"
| "py_ne (JNum n) (JBool b) = (n \<noteq> of_bool b)"
| "py_ne d1 d2 = (d1 \<noteq> d2)"

text \<open>
  \<^verbatim>\<open>keys = set(d1.keys()).union(d2.keys())\<close> and \<^verbatim>\<open>for key in keys\<close>. Python leaves the
  order in which a set is iterated open, and for strings it changes from run to run with
  the hash seed. The order is therefore a parameter of the model: \<open>rank ks\<close> gives every
  key of the set \<open>ks\<close> its place, and the loop visits the keys by ascending place.
\<close>

type_synonym set_order = "string list \<Rightarrow> string \<Rightarrow> nat"

definition iter_set :: "set_order \<Rightarrow> string list \<Rightarrow> string list" where
  "iter_set rank ks = sort_key (rank ks) ks"

text \<open>\<^verbatim>\<open>f'{path}/{key}' if path else key\<close> and \<^verbatim>\<open>f'{path}[{index}]'\<close>.\<close>

definition key_path :: "string \<Rightarrow> string \<Rightarrow> string" where
  "key_path path key = (if path \<noteq> [] then path @ ''/'' @ key else key)"

definition index_path :: "string \<Rightarrow> nat \<Rightarrow> string" where
  "index_path path index = path @ ''['' @ str_nat index @ '']''"

text \<open>
  \<^verbatim>\<open>find_differences\<close> only ever assigns to \<^verbatim>\<open>detailed_differences\<close>; it returns here the
  assignments \<^verbatim>\<open>detailed_differences[path] = entry\<close> it makes, in the order it makes them.
\<close>

function (sequential) find_differences ::
  "set_order \<Rightarrow> json \<Rightarrow> json \<Rightarrow> string \<Rightarrow> (string \<times> json bodies) list"
where
  "find_differences rank (JObj d1) (JObj d2) path =
     concat (map (\<lambda>key.
       let new_path = key_path path key in
       if key \<in> set (keys d1) \<and> key \<in> set (keys d2) then
         find_differences rank (item d1 key) (item d2 key) new_path
       else if key \<in> set (keys d1) then
         [(new_path, \<lparr>body1 = item d1 key, body2 = JStr ''Key not found''\<rparr>)]
       else
         [(new_path, \<lparr>body1 = JStr ''Key not found'', body2 = item d2 key\<rparr>)])
       (iter_set rank (remdups (keys d1 @ keys d2))))"
| "find_differences rank (JArr d1) (JArr d2) path =
     (let len1 = length d1; len2 = length d2 in
      concat (map (\<lambda>index.
        let new_path = index_path path index in
        if index < len1 \<and> index < len2 then
          find_differences rank (d1 ! index) (d2 ! index) new_path
        else if index < len1 then
          [(new_path, \<lparr>body1 = d1 ! index, body2 = JStr ''Element not found''\<rparr>)]
        else
          [(new_path, \<lparr>body1 = JStr ''Element not found'', body2 = d2 ! index\<rparr>)])
        [0 ..< max len1 len2]))"
| "find_differences rank d1 d2 path =
     (if py_ne d1 d2 then [(path, \<lparr>body1 = d1, body2 = d2\<rparr>)] else [])"
  by pat_completeness auto

termination
proof (relation "measure (\<lambda>(rank, d1, d2, path). size d1)")
  have item_size: "size (item d key) < Suc (size_list (size_prod (\<lambda>x. 0) size) d)"
    if "key \<in> set (keys d)" for key and d :: "(string \<times> json) list"
    using that
  proof (induction d)
    case Nil
    then show ?case by (simp add: keys_def)
  next
    case (Cons kv d)
    show ?case
    proof (cases "key = fst kv")
      case True
      then show ?thesis by (cases kv) (simp add: item_def)
    next
      case False
      with Cons.prems have "key \<in> set (keys d)" by (simp add: keys_def)
      from Cons.IH [OF this] False show ?thesis by (cases kv) (simp add: item_def)
    qed
  qed
  have nth_size: "size (xs ! i) < Suc (size_list size xs)"
    if "i < length xs" for i and xs :: "json list"
  proof -
    from that have "xs ! i \<in> set xs" by simp
    then have "size (xs ! i) \<le> size_list size xs" by (rule size_list_estimation') simp
    then show ?thesis by simp
  qed
  show "wf (measure (\<lambda>(rank, d1, d2, path). size d1))" by simp
  show "((rank, item d1 key, item d2 key, new_path), (rank, JObj d1, JObj d2, path))
          \<in> measure (\<lambda>(rank, d1, d2, path). size d1)"
    if "key \<in> set (keys d1) \<and> key \<in> set (keys d2)"
    for rank :: set_order and d1 d2 key and path new_path :: string
    using that item_size [of key d1] by simp
  show "((rank, d1 ! index, d2 ! index, new_path), (rank, JArr d1, JArr d2, path))
          \<in> measure (\<lambda>(rank, d1, d2, path). size d1)"
    if "index < len1 \<and> index < len2" and "len1 = length d1"
    for rank :: set_order and d1 d2 index len1 len2 and path new_path :: string
    using that nth_size [of index d1] by simp
qed

text \<open>
  The dictionary after the assignments: assigning to a path already there replaces its
  entry, a new path goes to the end.
\<close>

definition compare_json_structures ::
  "set_order \<Rightarrow> json \<Rightarrow> json \<Rightarrow> (string \<times> json bodies) list" where
  "compare_json_structures rank json_data1 json_data2 =
     fold (\<lambda>(path, entry). AList.update path entry)
       (find_differences rank json_data1 json_data2 []) []"

section \<open>Summarising\<close>

datatype py_error = ValueError

text \<open>\<^verbatim>\<open>max\<close> of a generator: \<^verbatim>\<open>ValueError\<close> when it yields nothing.\<close>

definition py_max :: "int list \<Rightarrow> py_error + int" where
  "py_max xs = (case xs of [] \<Rightarrow> Inl ValueError | x # rest \<Rightarrow> Inr (fold max rest x))"

text \<open>\<^verbatim>\<open>next((count for l, count in structure if l == level), 0)\<close>.\<close>

definition next_count :: "(int \<times> int) list \<Rightarrow> int \<Rightarrow> int" where
  "next_count structure lv =
     (case filter (\<lambda>(l, cnt). l = lv) structure of [] \<Rightarrow> 0 | (l, cnt) # rest \<Rightarrow> cnt)"

record detail = "int bodies" +
  level :: int
  difference :: int

record summary =
  total_nodes :: "int bodies"
  detailed_comparison :: "detail list"
  differences :: "(string \<times> json bodies) list"

text \<open>
  The sums never fail; the summary is built before line 102 takes the two maxima, and
  either \<^verbatim>\<open>max\<close> raises \<^verbatim>\<open>ValueError\<close> on an empty structure, so nothing is returned then.
\<close>

definition summarize_comparison ::
  "(int \<times> int) list \<Rightarrow> (int \<times> int) list \<Rightarrow> (string \<times> json bodies) list \<Rightarrow> py_error + summary"
where
  "summarize_comparison structure1 structure2 detailed_differences =
     (let total_nodes1 = sum_list (map snd structure1);
          total_nodes2 = sum_list (map snd structure2)
      in case py_max (map fst structure1) of
           Inl e \<Rightarrow> Inl e
         | Inr max1 \<Rightarrow>
             (case py_max (map fst structure2) of
                Inl e \<Rightarrow> Inl e
              | Inr max2 \<Rightarrow>
                  (let max_level = max max1 max2 in
                   Inr \<lparr>total_nodes = \<lparr>body1 = total_nodes1, body2 = total_nodes2\<rparr>,
                        detailed_comparison =
                          map (\<lambda>lv.
                                 let count1 = next_count structure1 lv;
                                     count2 = next_count structure2 lv
                                 in \<lparr>body1 = count1, body2 = count2,
                                     level = lv, difference = count1 - count2\<rparr>)
                              [1 .. max_level],
                        differences = detailed_differences\<rparr>)))"

section \<open>Notions the statements use\<close>

text \<open>
  The number of levels of a document: 1 for a scalar and for an empty dictionary or list,
  one more than its deepest value otherwise.
\<close>

fun height :: "json \<Rightarrow> nat"
  and height_items :: "(string \<times> json) list \<Rightarrow> nat"
  and height_elems :: "json list \<Rightarrow> nat"
where
  "height (JObj node) = Suc (height_items node)"
| "height (JArr node) = Suc (height_elems node)"
| "height JNull = 1"
| "height (JBool b) = 1"
| "height (JNum n) = 1"
| "height (JStr s) = 1"
| "height_items [] = 0"
| "height_items ((key, v) # rest) = max (height v) (height_items rest)"
| "height_elems [] = 0"
| "height_elems (v # rest) = max (height v) (height_elems rest)"

text \<open>Every count a dictionary of levels holds is positive.\<close>

definition positive :: "levels \<Rightarrow> bool" where
  "positive lvs = (\<forall>l c. map_of lvs l = Some c \<longrightarrow> 0 < c)"

text \<open>The three shapes \<^verbatim>\<open>find_differences\<close> tells apart: dictionary, list, anything else.\<close>

datatype kind = Object | Array | Scalar

fun kind_of :: "json \<Rightarrow> kind" where
  "kind_of (JObj d) = Object"
| "kind_of (JArr d) = Array"
| "kind_of d = Scalar"

text \<open>
  Two orders of iteration for the examples: \<open>listed\<close> visits the keys of a set as they were
  put in (the keys of the first document, then the new ones of the second), \<open>reversed\<close>
  visits them the other way round.
\<close>

definition listed :: set_order where
  "listed ks key = 0"

definition reversed :: set_order where
  "reversed ks key = length ks - length (takeWhile (\<lambda>k. k \<noteq> key) ks)"

text \<open>
  The way from the root of a document to one of its nodes, the path \<^verbatim>\<open>find_differences\<close>
  builds along it, the scalar leaf a way leads to, and the document with another value at the
  end of a way.
\<close>

datatype step = Key string | Index nat

fun path_of :: "string \<Rightarrow> step list \<Rightarrow> string" where
  "path_of path [] = path"
| "path_of path (Key key # steps) = path_of (key_path path key) steps"
| "path_of path (Index i # steps) = path_of (index_path path i) steps"

fun leaf_at :: "json \<Rightarrow> step list \<Rightarrow> json option" where
  "leaf_at (JObj d) (Key key # steps) =
     (if key \<in> set (keys d) then leaf_at (item d key) steps else None)"
| "leaf_at (JArr d) (Index i # steps) =
     (if i < length d then leaf_at (d ! i) steps else None)"
| "leaf_at d [] = (if kind_of d = Scalar then Some d else None)"
| "leaf_at d steps = None"

fun put :: "json \<Rightarrow> step list \<Rightarrow> json \<Rightarrow> json" where
  "put (JObj d) (Key key # steps) v = JObj (AList.update key (put (item d key) steps v) d)"
| "put (JArr d) (Index i # steps) v = JArr (d[i := put (d ! i) steps v])"
| "put d [] v = v"
| "put d steps v = d"

text \<open>
  Two documents with the same content: the same value, up to the order in which the
  dictionaries inside hold their keys. Two entries, and two assignments, with the same
  content are defined from it.
\<close>

function (sequential) same_content :: "json \<Rightarrow> json \<Rightarrow> bool" where
  "same_content (JObj d1) (JObj d2) =
     (set (keys d1) = set (keys d2)
      \<and> (\<forall>key \<in> set (keys d1). same_content (item d1 key) (item d2 key)))"
| "same_content (JArr d1) (JArr d2) =
     (length d1 = length d2 \<and> (\<forall>i \<in> {..< length d1}. same_content (d1 ! i) (d2 ! i)))"
| "same_content d1 d2 = (d1 = d2)"
  by pat_completeness auto

termination
proof (relation "measure (\<lambda>(d1, d2). size d1)")
  show "wf (measure (\<lambda>(d1, d2). size d1))" by simp
  show "((item d1 key, item d2 key), (JObj d1, JObj d2)) \<in> measure (\<lambda>(d1, d2). size d1)"
    if "key \<in> set (keys d1)" for d1 d2 key
    using that
  proof (induction d1)
    case Nil
    then show ?case by (simp add: keys_def)
  next
    case (Cons kv d1)
    show ?case
    proof (cases "key = fst kv")
      case True
      then show ?thesis by (cases kv) (simp add: item_def)
    next
      case False
      with Cons.prems have "key \<in> set (keys d1)" by (simp add: keys_def)
      from Cons.IH [OF this] False show ?thesis by (cases kv) (simp add: item_def)
    qed
  qed
  show "((d1 ! i, d2 ! i), (JArr d1, JArr d2)) \<in> measure (\<lambda>(d1, d2). size d1)"
    if "i \<in> {..< length d1}" for d1 d2 :: "json list" and i
  proof -
    from that have "d1 ! i \<in> set d1" by simp
    then have "size (d1 ! i) \<le> size_list size d1" by (rule size_list_estimation') simp
    then show ?thesis by simp
  qed
qed

definition same_entry :: "string \<times> json bodies \<Rightarrow> string \<times> json bodies \<Rightarrow> bool" where
  "same_entry w w' =
     (fst w = fst w' \<and> same_content (body1 (snd w)) (body1 (snd w'))
      \<and> same_content (body2 (snd w)) (body2 (snd w')))"



definition same_bodies :: "json bodies \<Rightarrow> json bodies \<Rightarrow> bool" where
  "same_bodies e e' = (same_content (body1 e) (body1 e') \<and> same_content (body2 e) (body2 e'))"


text \<open>
  The two nodes that \<^verbatim>\<open>find_differences\<close> compares at the end of a way: it goes down a key
  that both dictionaries hold and an index that both lists have.
\<close>

fun nodes_at :: "json \<Rightarrow> json \<Rightarrow> step list \<Rightarrow> (json \<times> json) option" where
  "nodes_at (JObj d1) (JObj d2) (Key key # steps) =
     (if key \<in> set (keys d1) \<and> key \<in> set (keys d2)
      then nodes_at (item d1 key) (item d2 key) steps else None)"
| "nodes_at (JArr d1) (JArr d2) (Index i # steps) =
     (if i < length d1 \<and> i < length d2 then nodes_at (d1 ! i) (d2 ! i) steps else None)"
| "nodes_at d1 d2 [] = Some (d1, d2)"
| "nodes_at d1 d2 steps = None"

text \<open>
  The differ as the specification describes it, to compare with the code: the same three
  cases, with the missing side of an entry a marker of its own, \<open>Missing\<close>, and a value
  that is there tagged \<open>Found\<close>.
\<close>

datatype side = Found json | Missing


text \<open>
  Reading an entry of the code back: the two strings the code uses for a missing side are
  read as \<open>Missing\<close>, every other value as \<open>Found\<close>. A document is free of them when none
  of its values, at any depth, is one of the two strings.
\<close>

definition is_sentinel :: "json \<Rightarrow> bool" where
  "is_sentinel v = (v = JStr ''Key not found'' \<or> v = JStr ''Element not found'')"

definition decode :: "json \<Rightarrow> side" where
  "decode v = (if is_sentinel v then Missing else Found v)"

definition decode_entry :: "string \<times> json bodies \<Rightarrow> string \<times> side bodies" where
  "decode_entry w = (fst w, \<lparr>body1 = decode (body1 (snd w)), body2 = decode (body2 (snd w))\<rparr>)"





section \<open>Properties of the level counts\<close>

lemma bump_keys: "fst ` set (bump lvs l) = insert l (fst ` set lvs)"
  by (simp add: bump_def dom_update)

lemma bump_distinct: "distinct (map fst lvs) \<Longrightarrow> distinct (map fst (bump lvs l))"
  by (simp add: bump_def distinct_update)

lemma bump_map_of:
  "map_of (bump lvs l) = (map_of lvs)(l \<mapsto> (case map_of lvs l of None \<Rightarrow> 0 | Some c \<Rightarrow> c) + 1)"
  by (simp add: bump_def update_conv')

lemma bump_positive: "positive lvs \<Longrightarrow> positive (bump lvs l)"
  by (auto simp: positive_def bump_map_of split: option.splits if_splits)
    (metis less_imp_le add_nonneg_pos zero_less_one add.commute less_le_trans le_less add_pos_pos)+

lemma traverse_keys:
  "fst ` set (traverse d l lvs) = fst ` set lvs \<union> {l ..< l + int (height d)}"
  "fst ` set (traverse_items kvs l lvs) = fst ` set lvs \<union> {l ..< l + int (height_items kvs)}"
  "fst ` set (traverse_elems vs l lvs) = fst ` set lvs \<union> {l ..< l + int (height_elems vs)}"
proof (induction d l lvs and kvs l lvs and vs l lvs
    rule: traverse_traverse_items_traverse_elems.induct)
  case (1 node l lvs)
  then show ?case by (auto simp: bump_keys)
next
  case (2 node l lvs)
  then show ?case by (auto simp: bump_keys)
qed (auto simp: bump_keys)

lemma traverse_distinct:
  "distinct (map fst lvs) \<Longrightarrow> distinct (map fst (traverse d l lvs))"
  "distinct (map fst lvs) \<Longrightarrow> distinct (map fst (traverse_items kvs l lvs))"
  "distinct (map fst lvs) \<Longrightarrow> distinct (map fst (traverse_elems vs l lvs))"
  by (induction d l lvs and kvs l lvs and vs l lvs
      rule: traverse_traverse_items_traverse_elems.induct)
    (simp_all add: bump_distinct)

lemma traverse_positive:
  "positive lvs \<Longrightarrow> positive (traverse d l lvs)"
  "positive lvs \<Longrightarrow> positive (traverse_items kvs l lvs)"
  "positive lvs \<Longrightarrow> positive (traverse_elems vs l lvs)"
  by (induction d l lvs and kvs l lvs and vs l lvs
      rule: traverse_traverse_items_traverse_elems.induct)
    (simp_all add: bump_positive)

lemma traverse_above:
  "k < l \<Longrightarrow> map_of (traverse d l lvs) k = map_of lvs k"
  "k < l \<Longrightarrow> map_of (traverse_items kvs l lvs) k = map_of lvs k"
  "k < l \<Longrightarrow> map_of (traverse_elems vs l lvs) k = map_of lvs k"
  by (induction d l lvs and kvs l lvs and vs l lvs
      rule: traverse_traverse_items_traverse_elems.induct)
    (simp_all add: bump_map_of)

lemma traverse_own_level:
  "map_of (traverse d l lvs) l = Some ((case map_of lvs l of None \<Rightarrow> 0 | Some c \<Rightarrow> c) + 1)"
  by (cases d) (simp_all add: traverse_above bump_map_of)


lemma sorted_fst: "sorted ps \<Longrightarrow> sorted (map fst ps)" for ps :: "(int \<times> int) list"
  by (induction ps) (auto simp: less_eq_prod_def)

lemma parse_set: "set (parse_json_structure d) = set (traverse d 1 [])"
  by (simp add: parse_json_structure_def)

lemma parse_distinct: "distinct (map fst (parse_json_structure d))"
proof -
  have "distinct (map fst (traverse d 1 []))" by (rule traverse_distinct) simp
  moreover have "mset (map fst (parse_json_structure d)) = mset (map fst (traverse d 1 []))"
    by (simp add: parse_json_structure_def)
  ultimately show ?thesis by (metis mset_eq_imp_distinct_iff)
qed

lemma parse_levels: "map fst (parse_json_structure d) = [1 .. int (height d)]"
proof (rule sorted_distinct_set_unique)
  show "sorted (map fst (parse_json_structure d))"
    by (rule sorted_fst) (simp add: parse_json_structure_def)
  show "distinct (map fst (parse_json_structure d))" by (rule parse_distinct)
  show "set (map fst (parse_json_structure d)) = set [1 .. int (height d)]"
    using traverse_keys(1) [of d 1 "[]"] by (auto simp: parse_set)
qed simp_all

lemma height_pos: "0 < height d"
  by (cases d) simp_all

text \<open>
  Claim C5. For every document, an empty dictionary, an empty list and a bare scalar among
  them, \<^verbatim>\<open>parse_json_structure\<close> returns a non-empty list sorted by ascending depth, with no
  depth twice, in which every depth is at least 1 and every count is positive, and the
  count at depth 1 is exactly 1.
\<close>

theorem parse_json_structure_levels:
  "parse_json_structure d \<noteq> []
   \<and> sorted (map fst (parse_json_structure d))
   \<and> distinct (map fst (parse_json_structure d))
   \<and> (\<forall>(depth, cnt) \<in> set (parse_json_structure d). 1 \<le> depth \<and> 0 < cnt)
   \<and> (1, 1) \<in> set (parse_json_structure d)"
proof -
  have one: "(1, 1) \<in> set (parse_json_structure d)"
    using traverse_own_level [of d 1 "[]"] by (auto simp: parse_set dest: map_of_SomeD)
  have pos: "positive (traverse d 1 [])"
    by (rule traverse_positive) (simp add: positive_def)
  have dist: "distinct (map fst (traverse d 1 []))" by (rule traverse_distinct) simp
  have cnt: "0 < c" if "(l, c) \<in> set (parse_json_structure d)" for l c
  proof -
    from that dist have "map_of (traverse d 1 []) l = Some c" by (simp add: parse_set)
    with pos show ?thesis by (auto simp: positive_def)
  qed
  have dep: "1 \<le> l" if "(l, c) \<in> set (parse_json_structure d)" for l c
  proof -
    from that have "l \<in> set (map fst (parse_json_structure d))" by force
    then show ?thesis by (simp add: parse_levels)
  qed
  from one have "parse_json_structure d \<noteq> []" by auto
  moreover have "sorted (map fst (parse_json_structure d))" by (simp add: parse_levels)
  moreover note parse_distinct [of d] one
  moreover have "\<forall>(depth, cnt) \<in> set (parse_json_structure d). 1 \<le> depth \<and> 0 < cnt"
    using cnt dep by auto
  ultimately show ?thesis by blast
qed

theorem parse_json_structure_levels_witness:
  "parse_json_structure (JObj []) \<noteq> [] \<and> (1, 1) \<in> set (parse_json_structure JNull)
   \<and> sorted (map fst (parse_json_structure (JArr [JNull, JArr []])))
   \<and> distinct (map fst (parse_json_structure (JArr [JNull, JArr []])))"
  using parse_json_structure_levels [of "JObj []"] parse_json_structure_levels [of JNull]
    parse_json_structure_levels [of "JArr [JNull, JArr []]"]
  by blast

text \<open>
  Claim C9. The depths that \<^verbatim>\<open>parse_json_structure\<close> returns are 1, 2, ..., D with no
  gap, D being the number of entries returned.
\<close>

theorem parse_json_structure_contiguous:
  "map fst (parse_json_structure d) = [1 .. int (length (parse_json_structure d))]"
proof -
  have "length (parse_json_structure d) = length (map fst (parse_json_structure d))" by simp
  also have "\<dots> = height d" by (simp only: parse_levels) simp
  finally show ?thesis by (simp add: parse_levels)
qed

section \<open>Properties of the differences\<close>

lemma iter_set_set [simp]: "set (iter_set rank ks) = set ks"
  by (simp add: iter_set_def)

lemma iter_set_distinct [simp]: "distinct (iter_set rank ks) = distinct ks"
  by (simp add: iter_set_def)

lemma iter_set_mset [simp]: "mset (iter_set rank ks) = mset ks"
  by (simp add: iter_set_def)

lemma py_ne_same [simp]: "\<not> py_ne d d"
  by (cases d) simp_all

lemma concat_map_empty: "(\<And>x. x \<in> set xs \<Longrightarrow> f x = []) \<Longrightarrow> concat (map f xs) = []"
  by (induction xs) simp_all

lemma find_differences_equal:
  "d1 = d2 \<Longrightarrow> find_differences rank d1 d2 path = []"
proof (induction rank d1 d2 path rule: find_differences.induct)
  case (1 rank d1 d2 path)
  then show ?case by (auto intro!: concat_map_empty simp: Let_def)
next
  case (2 rank d1 d2 path)
  then show ?case by (auto intro!: concat_map_empty simp: Let_def)
qed auto

text \<open>
  Claim C2. For every document \<open>d\<close> and every order of iteration,
  \<^verbatim>\<open>compare_json_structures(d, d)\<close> is the empty dictionary: equal subtrees contribute no
  entry.
\<close>

theorem compare_json_structures_same: "compare_json_structures rank d d = []"
  by (simp add: compare_json_structures_def find_differences_equal)

lemma find_differences_other:
  "kind_of d1 \<noteq> kind_of d2 \<or> kind_of d1 = Scalar \<Longrightarrow>
   find_differences rank d1 d2 path = (if py_ne d1 d2 then [(path, \<lparr>body1 = d1, body2 = d2\<rparr>)] else [])"
  by (cases d1; cases d2) simp_all

lemma py_ne_kinds: "kind_of d1 \<noteq> kind_of d2 \<Longrightarrow> py_ne d1 d2"
  by (cases d1; cases d2) simp_all

lemma find_differences_flat:
  "kind_of d1 \<noteq> kind_of d2 \<or> (kind_of d1 = Scalar \<and> kind_of d2 = Scalar \<and> py_ne d1 d2) \<Longrightarrow>
   find_differences rank d1 d2 path = [(path, \<lparr>body1 = d1, body2 = d2\<rparr>)]"
  using find_differences_other [of d1 d2 rank path] py_ne_kinds [of d1 d2] by auto

lemma concat_map_single:
  "distinct xs \<Longrightarrow> x \<in> set xs \<Longrightarrow> (\<And>y. y \<in> set xs \<Longrightarrow> y \<noteq> x \<Longrightarrow> f y = []) \<Longrightarrow>
   concat (map f xs) = f x"
proof (induction xs)
  case Nil
  then show ?case by simp
next
  case (Cons y ys)
  show ?case
  proof (cases "y = x")
    case True
    with Cons.prems have "concat (map f ys) = []"
      by (intro concat_map_empty) auto
    with True show ?thesis by simp
  next
    case False
    with Cons have "concat (map f ys) = f x" by auto
    moreover from False Cons.prems have "f y = []" by simp
    ultimately show ?thesis by simp
  qed
qed

lemma keys_update: "key \<in> set (keys d) \<Longrightarrow> keys (AList.update key v d) = keys d"
  by (simp add: keys_def update_keys)

lemma item_update:
  "item (AList.update key v d) k = (if k = key then v else item d k)"
  by (simp add: item_def update_conv')

lemma find_differences_one_leaf:
  "leaf_at d steps = Some a \<Longrightarrow> kind_of b = Scalar \<Longrightarrow> py_ne a b \<Longrightarrow>
   find_differences rank d (put d steps b) path = [(path_of path steps, \<lparr>body1 = a, body2 = b\<rparr>)]"
proof (induction steps arbitrary: d path)
  case Nil
  then have "kind_of d = Scalar" and "a = d" by (auto split: if_splits)
  with Nil show ?case by (simp add: find_differences_flat)
next
  case (Cons s steps)
  show ?case
  proof (cases s)
    case (Key key)
    with Cons.prems obtain obj where d: "d = JObj obj" and key: "key \<in> set (keys obj)"
      and leaf: "leaf_at (item obj key) steps = Some a"
      by (cases d) (auto split: if_splits)
    let ?v = "put (item obj key) steps b"
    let ?f = "\<lambda>k. let new_path = key_path path k in
       if k \<in> set (keys obj) \<and> k \<in> set (keys (AList.update key ?v obj)) then
         find_differences rank (item obj k) (item (AList.update key ?v obj) k) new_path
       else if k \<in> set (keys obj) then
         [(new_path, \<lparr>body1 = item obj k, body2 = JStr ''Key not found''\<rparr>)]
       else
         [(new_path, \<lparr>body1 = JStr ''Key not found'', body2 = item (AList.update key ?v obj) k\<rparr>)]"
    let ?ks = "iter_set rank (remdups (keys obj @ keys (AList.update key ?v obj)))"
    have "concat (map ?f ?ks) = ?f key"
    proof (rule concat_map_single)
      show "distinct ?ks" by simp
      show "key \<in> set ?ks" using key by simp
      show "?f k = []" if "k \<in> set ?ks" and "k \<noteq> key" for k
        using that key by (simp add: keys_update item_update find_differences_equal)
    qed
    also have "?f key = find_differences rank (item obj key) ?v (key_path path key)"
      using key by (simp add: keys_update item_update)
    also have "\<dots> = [(path_of (key_path path key) steps, \<lparr>body1 = a, body2 = b\<rparr>)]"
      using leaf Cons.prems(2,3) by (rule Cons.IH)
    finally show ?thesis using d Key by simp
  next
    case (Index i)
    with Cons.prems obtain xs where d: "d = JArr xs" and i: "i < length xs"
      and leaf: "leaf_at (xs ! i) steps = Some a"
      by (cases d) (auto split: if_splits)
    let ?v = "put (xs ! i) steps b"
    let ?f = "\<lambda>index. let new_path = index_path path index in
        if index < length xs \<and> index < length xs then
          find_differences rank (xs ! index) (xs[i := ?v] ! index) new_path
        else if index < length xs then
          [(new_path, \<lparr>body1 = xs ! index, body2 = JStr ''Element not found''\<rparr>)]
        else
          [(new_path, \<lparr>body1 = JStr ''Element not found'', body2 = xs[i := ?v] ! index\<rparr>)]"
    have "concat (map ?f [0 ..< length xs]) = ?f i"
    proof (rule concat_map_single)
      show "distinct [0 ..< length xs]" by simp
      show "i \<in> set [0 ..< length xs]" using i by simp
      show "?f j = []" if "j \<in> set [0 ..< length xs]" and "j \<noteq> i" for j
        using that by (simp add: find_differences_equal)
    qed
    also have "?f i = find_differences rank (xs ! i) ?v (index_path path i)"
      using i by simp
    also have "\<dots> = [(path_of (index_path path i) steps, \<lparr>body1 = a, body2 = b\<rparr>)]"
      using leaf Cons.prems(2,3) by (rule Cons.IH)
    finally show ?thesis using d Index by (simp add: Let_def)
  qed
qed

lemma concat_map_member: "x \<in> set xs \<Longrightarrow> e \<in> set (f x) \<Longrightarrow> e \<in> set (concat (map f xs))"
  by auto

lemma missing_key_recorded:
  "key \<in> set (keys d1) \<Longrightarrow> key \<notin> set (keys d2) \<Longrightarrow>
   (key_path path key, \<lparr>body1 = item d1 key, body2 = JStr ''Key not found''\<rparr>)
     \<in> set (find_differences rank (JObj d1) (JObj d2) path)"
  "key \<notin> set (keys d1) \<Longrightarrow> key \<in> set (keys d2) \<Longrightarrow>
   (key_path path key, \<lparr>body1 = JStr ''Key not found'', body2 = item d2 key\<rparr>)
     \<in> set (find_differences rank (JObj d1) (JObj d2) path)"
  by (auto simp: Let_def intro!: bexI [of _ key])

lemma missing_index_recorded:
  "i < length d1 \<Longrightarrow> length d2 \<le> i \<Longrightarrow>
   (index_path path i, \<lparr>body1 = d1 ! i, body2 = JStr ''Element not found''\<rparr>)
     \<in> set (find_differences rank (JArr d1) (JArr d2) path)"
  "length d1 \<le> i \<Longrightarrow> i < length d2 \<Longrightarrow>
   (index_path path i, \<lparr>body1 = JStr ''Element not found'', body2 = d2 ! i\<rparr>)
     \<in> set (find_differences rank (JArr d1) (JArr d2) path)"
  by (auto simp: Let_def intro!: bexI [of _ i])

text \<open>
  Claim C3, as the code has it. Let \<open>d1\<close> and \<open>d2\<close> be identical except at one scalar leaf,
  where \<open>d1\<close> has \<open>a\<close> and \<open>d2\<close> has the scalar \<open>b\<close>, and let \<^verbatim>\<open>a != b\<close> hold in Python
  (every two different scalars but a Boolean against the number it equals, \<^verbatim>\<open>True == 1\<close> and
  \<^verbatim>\<open>False == 0\<close>). Then \<^verbatim>\<open>compare_json_structures\<close> returns exactly one entry; its key is the
  path of the leaf as \<^verbatim>\<open>find_differences\<close> builds it (keys joined with \<^verbatim>\<open>/\<close>, no separator
  while the path is still empty, \<^verbatim>\<open>[index]\<close> for a position of a list) and its values are
  \<open>a\<close> and \<open>b\<close>.
\<close>

theorem compare_json_structures_one_leaf:
  assumes "leaf_at d steps = Some a" and "kind_of b = Scalar" and "py_ne a b"
  shows "compare_json_structures rank d (put d steps b)
           = [(path_of [] steps, \<lparr>body1 = a, body2 = b\<rparr>)]"
  using assms by (simp add: compare_json_structures_def find_differences_one_leaf)

theorem compare_json_structures_one_leaf_witness:
  "compare_json_structures listed
     (JObj [(''x'', JObj [(''y'', JNum 1)])]) (JObj [(''x'', JObj [(''y'', JNum 2)])])
   = [(''x/y'', \<lparr>body1 = JNum 1, body2 = JNum 2\<rparr>)]
   \<and> compare_json_structures listed
     (JObj [(''a'', JArr [JNull, JStr ''u''])]) (JObj [(''a'', JArr [JNull, JStr ''v''])])
   = [(''a[1]'', \<lparr>body1 = JStr ''u'', body2 = JStr ''v''\<rparr>)]"
  using compare_json_structures_one_leaf
      [of "JObj [(''x'', JObj [(''y'', JNum 1)])]" "[Key ''x'', Key ''y'']" "JNum 1" "JNum 2" listed]
    compare_json_structures_one_leaf
      [of "JObj [(''a'', JArr [JNull, JStr ''u''])]" "[Key ''a'', Index 1]" "JStr ''u''" "JStr ''v''" listed]
  by (simp add: keys_def item_def key_path_def index_path_def digit_def)

text \<open>
  The claim as the specification states it fails: \<^verbatim>\<open>[true]\<close> and \<^verbatim>\<open>[1]\<close> differ at exactly
  one scalar leaf, and no entry is returned, since \<^verbatim>\<open>True != 1\<close> is false in Python.
\<close>

theorem one_leaf_bool_counterexample:
  "leaf_at (JArr [JBool True]) [Index 0] = Some (JBool True)
   \<and> put (JArr [JBool True]) [Index 0] (JNum 1) = JArr [JNum 1]
   \<and> JBool True \<noteq> JNum 1
   \<and> compare_json_structures listed (JArr [JBool True]) (JArr [JNum 1]) = []"
  by (simp add: compare_json_structures_def)

lemma find_differences_induct3 [case_names Obj Arr Other]:
  fixes P :: "set_order \<Rightarrow> json \<Rightarrow> json \<Rightarrow> string \<Rightarrow> bool"
  assumes "\<And>rank d1 d2 path.
      (\<And>key. key \<in> set (keys d1) \<Longrightarrow> key \<in> set (keys d2) \<Longrightarrow>
         P rank (item d1 key) (item d2 key) (key_path path key)) \<Longrightarrow>
      P rank (JObj d1) (JObj d2) path"
    and "\<And>rank d1 d2 path.
      (\<And>i. i < length d1 \<Longrightarrow> i < length d2 \<Longrightarrow>
         P rank (d1 ! i) (d2 ! i) (index_path path i)) \<Longrightarrow>
      P rank (JArr d1) (JArr d2) path"
    and "\<And>rank d1 d2 path. kind_of d1 \<noteq> kind_of d2 \<or> kind_of d1 = Scalar \<Longrightarrow> P rank d1 d2 path"
  shows "P rank d1 d2 path"
proof (induction rank d1 d2 path rule: find_differences.induct)
  case (1 rank d1 d2 path)
  show ?case by (rule assms(1)) (rule 1 [OF _ refl], auto)
next
  case (2 rank d1 d2 path)
  show ?case by (rule assms(2)) (rule 2 [OF refl refl _ refl], auto)
qed (rule assms(3), simp; fail)+

lemma mset_concat_map: "mset (concat (map f xs)) = (\<Sum>x\<in>#mset xs. mset (f x))"
  by (induction xs) simp_all

lemma find_differences_mset:
  "mset (find_differences rank d1 d2 path) = mset (find_differences rank' d1 d2 path)"
proof (induction rank d1 d2 path rule: find_differences_induct3)
  case (Obj rank d1 d2 path)
  show ?case
    unfolding find_differences.simps mset_concat_map iter_set_mset
    by (rule arg_cong [where f = sum_mset], rule image_mset_cong) (simp add: Obj Let_def)
next
  case (Arr rank d1 d2 path)
  show ?case
    unfolding find_differences.simps mset_concat_map Let_def
    by (rule arg_cong [where f = sum_mset], rule image_mset_cong) (simp add: Arr)
next
  case (Other rank d1 d2 path)
  then show ?case by (simp add: find_differences_other)
qed

lemma map_of_fold_update:
  "map_of (fold (\<lambda>(p, e). AList.update p e) ws acc) = map_of acc ++ map_of (rev ws)"
  by (induction ws arbitrary: acc) (auto simp: update_conv')

lemma map_of_rev_distinct: "distinct (map fst xs) \<Longrightarrow> map_of (rev xs) = map_of xs"
  by (subst map_of_inject_set) (simp_all add: rev_map [symmetric])

lemma compare_json_structures_map_of:
  "distinct (map fst (find_differences rank d1 d2 [])) \<Longrightarrow>
   map_of (compare_json_structures rank d1 d2) = map_of (find_differences rank d1 d2 [])"
  by (simp add: compare_json_structures_def map_of_fold_update map_of_rev_distinct)

lemma same_content_other:
  "kind_of d1 \<noteq> kind_of d2 \<or> kind_of d1 = Scalar \<Longrightarrow> same_content d1 d2 = (d1 = d2)"
  by (cases d1; cases d2) simp_all

lemma same_content_refl [simp]: "same_content d d"
proof -
  have "d1 = d2 \<Longrightarrow> same_content d1 d2" for d1 d2
    by (induction d1 d2 rule: same_content.induct) auto
  then show ?thesis by simp
qed

lemma same_content_kind: "same_content d1 d2 \<Longrightarrow> kind_of d1 = kind_of d2"
  by (cases d1; cases d2) simp_all

lemma same_content_JObj:
  assumes "same_content (JObj d) e"
  obtains d' where "e = JObj d'" and "set (keys d') = set (keys d)"
    and "\<And>key. key \<in> set (keys d) \<Longrightarrow> same_content (item d key) (item d' key)"
  using assms by (cases e) auto

lemma same_content_JArr:
  assumes "same_content (JArr d) e"
  obtains d' where "e = JArr d'" and "length d' = length d"
    and "\<And>i. i < length d \<Longrightarrow> same_content (d ! i) (d' ! i)"
  using assms by (cases e) auto

lemma py_ne_same_content:
  assumes "same_content d1 e1" and "same_content d2 e2"
    and "kind_of d1 \<noteq> kind_of d2 \<or> kind_of d1 = Scalar"
  shows "py_ne e1 e2 = py_ne d1 d2"
proof (cases "kind_of d1 = kind_of d2")
  case True
  with assms(3) have "kind_of d1 = Scalar" and "kind_of d2 = Scalar" by simp_all
  with assms(1,2) have "e1 = d1" and "e2 = d2" by (auto simp: same_content_other)
  then show ?thesis by simp
next
  case False
  with same_content_kind [OF assms(1)] same_content_kind [OF assms(2)]
  have "kind_of e1 \<noteq> kind_of e2" by simp
  with False show ?thesis by (simp add: py_ne_kinds)
qed

lemma rel_mset_union:
  "rel_mset R M N \<Longrightarrow> rel_mset R M' N' \<Longrightarrow> rel_mset R (M + M') (N + N')"
  unfolding rel_mset_rel_mset'
  by (induction rule: rel_mset'.induct) (auto simp flip: rel_mset_rel_mset' intro: rel_mset_Plus)

lemma rel_mset_sum:
  "(\<And>x. x \<in># M \<Longrightarrow> rel_mset R (f x) (g x)) \<Longrightarrow> rel_mset R (\<Sum>x\<in>#M. f x) (\<Sum>x\<in>#M. g x)"
  by (induction M) (auto simp: rel_mset_Zero intro: rel_mset_union)

lemma rel_mset_single: "R a b \<Longrightarrow> rel_mset R {#a#} {#b#}"
  by (simp add: rel_mset_Plus rel_mset_Zero)

lemma find_differences_related:
  "same_content d1 e1 \<Longrightarrow> same_content d2 e2 \<Longrightarrow>
   rel_mset same_entry (mset (find_differences rank d1 d2 path))
     (mset (find_differences rank' e1 e2 path))"
proof (induction rank d1 d2 path arbitrary: e1 e2 rule: find_differences_induct3)
  case (Obj rank d1 d2 path)
  from Obj.prems(1) obtain c1 where e1: "e1 = JObj c1" and k1: "set (keys c1) = set (keys d1)"
    and i1: "\<And>key. key \<in> set (keys d1) \<Longrightarrow> same_content (item d1 key) (item c1 key)"
    by (rule same_content_JObj) blast
  from Obj.prems(2) obtain c2 where e2: "e2 = JObj c2" and k2: "set (keys c2) = set (keys d2)"
    and i2: "\<And>key. key \<in> set (keys d2) \<Longrightarrow> same_content (item d2 key) (item c2 key)"
    by (rule same_content_JObj) blast
  have "set (remdups (keys c1 @ keys c2)) = set (remdups (keys d1 @ keys d2))"
    by (simp add: k1 k2)
  then have ks: "mset (remdups (keys c1 @ keys c2)) = mset (remdups (keys d1 @ keys d2))"
    by (subst set_eq_iff_mset_eq_distinct [symmetric]) simp_all
  show ?case
    unfolding e1 e2 find_differences.simps mset_concat_map iter_set_mset ks
  proof (rule rel_mset_sum)
    fix key
    assume "key \<in># mset (remdups (keys d1 @ keys d2))"
    then consider "key \<in> set (keys d1)" "key \<in> set (keys d2)"
      | "key \<in> set (keys d1)" "key \<notin> set (keys d2)"
      | "key \<notin> set (keys d1)" "key \<in> set (keys d2)"
      by auto
    then show "rel_mset same_entry
        (mset (let new_path = key_path path key in
           if key \<in> set (keys d1) \<and> key \<in> set (keys d2) then
             find_differences rank (item d1 key) (item d2 key) new_path
           else if key \<in> set (keys d1) then
             [(new_path, \<lparr>body1 = item d1 key, body2 = JStr ''Key not found''\<rparr>)]
           else [(new_path, \<lparr>body1 = JStr ''Key not found'', body2 = item d2 key\<rparr>)]))
        (mset (let new_path = key_path path key in
           if key \<in> set (keys c1) \<and> key \<in> set (keys c2) then
             find_differences rank' (item c1 key) (item c2 key) new_path
           else if key \<in> set (keys c1) then
             [(new_path, \<lparr>body1 = item c1 key, body2 = JStr ''Key not found''\<rparr>)]
           else [(new_path, \<lparr>body1 = JStr ''Key not found'', body2 = item c2 key\<rparr>)]))"
    proof cases
      case 1
      then show ?thesis using Obj.IH [OF 1 i1 [OF 1(1)] i2 [OF 1(2)]] by (simp add: k1 k2)
    next
      case 2
      then show ?thesis using i1 [OF 2(1)]
        by (simp add: k1 k2 rel_mset_single same_entry_def)
    next
      case 3
      then show ?thesis using i2 [OF 3(2)]
        by (simp add: k1 k2 rel_mset_single same_entry_def)
    qed
  qed
next
  case (Arr rank d1 d2 path)
  from Arr.prems(1) obtain c1 where e1: "e1 = JArr c1" and l1: "length c1 = length d1"
    and i1: "\<And>i. i < length d1 \<Longrightarrow> same_content (d1 ! i) (c1 ! i)"
    by (rule same_content_JArr) blast
  from Arr.prems(2) obtain c2 where e2: "e2 = JArr c2" and l2: "length c2 = length d2"
    and i2: "\<And>i. i < length d2 \<Longrightarrow> same_content (d2 ! i) (c2 ! i)"
    by (rule same_content_JArr) blast
  show ?case
    unfolding e1 e2 find_differences.simps mset_concat_map Let_def l1 l2
  proof (rule rel_mset_sum)
    fix i
    assume "i \<in># mset [0 ..< max (length d1) (length d2)]"
    then consider "i < length d1" "i < length d2"
      | "i < length d1" "\<not> i < length d2"
      | "\<not> i < length d1" "i < length d2"
      by (cases "i < length d1"; cases "i < length d2") auto
    then show "rel_mset same_entry
        (mset (if i < length d1 \<and> i < length d2 then
             find_differences rank (d1 ! i) (d2 ! i) (index_path path i)
           else if i < length d1 then
             [(index_path path i, \<lparr>body1 = d1 ! i, body2 = JStr ''Element not found''\<rparr>)]
           else [(index_path path i, \<lparr>body1 = JStr ''Element not found'', body2 = d2 ! i\<rparr>)]))
        (mset (if i < length d1 \<and> i < length d2 then
             find_differences rank' (c1 ! i) (c2 ! i) (index_path path i)
           else if i < length d1 then
             [(index_path path i, \<lparr>body1 = c1 ! i, body2 = JStr ''Element not found''\<rparr>)]
           else [(index_path path i, \<lparr>body1 = JStr ''Element not found'', body2 = c2 ! i\<rparr>)]))"
    proof cases
      case 1
      then show ?thesis using Arr.IH [OF 1 i1 [OF 1(1)] i2 [OF 1(2)]] by simp
    next
      case 2
      then show ?thesis using i1 [OF 2(1)] by (simp add: rel_mset_single same_entry_def)
    next
      case 3
      then show ?thesis using i2 [OF 3(2)] by (simp add: rel_mset_single same_entry_def)
    qed
  qed
next
  case (Other rank d1 d2 path)
  from Other.hyps Other.prems have ne: "py_ne e1 e2 = py_ne d1 d2"
    by (intro py_ne_same_content)
  from Other.hyps same_content_kind [OF Other.prems(1)] same_content_kind [OF Other.prems(2)]
  have "kind_of e1 \<noteq> kind_of e2 \<or> kind_of e1 = Scalar" by auto
  with Other show ?case
    by (simp add: find_differences_other ne rel_mset_single same_entry_def rel_mset_Zero)
qed

lemma same_entry_iff: "same_entry w w' = (fst w = fst w' \<and> same_bodies (snd w) (snd w'))"
  by (simp add: same_entry_def same_bodies_def)

lemma rel_mset_member:
  "rel_mset R M N \<Longrightarrow> x \<in># M \<Longrightarrow> \<exists>y. y \<in># N \<and> R x y"
  unfolding rel_mset_rel_mset'
  by (induction rule: rel_mset'.induct) auto

lemma rel_mset_image:
  "rel_mset R M N \<Longrightarrow> (\<And>x y. R x y \<Longrightarrow> f x = g y) \<Longrightarrow> image_mset f M = image_mset g N"
  unfolding rel_mset_rel_mset'
  by (induction rule: rel_mset'.induct) auto

lemma map_of_related:
  assumes rel: "rel_mset same_entry (mset ws) (mset ws')" and dist: "distinct (map fst ws)"
  shows "rel_option same_bodies (map_of ws path) (map_of ws' path)"
proof -
  from rel have "image_mset fst (mset ws) = image_mset fst (mset ws')"
    by (rule rel_mset_image) (simp add: same_entry_iff)
  then have paths: "mset (map fst ws) = mset (map fst ws')" by simp
  with dist have dist': "distinct (map fst ws')" by (metis mset_eq_imp_distinct_iff)
  show ?thesis
  proof (cases "map_of ws path")
    case None
    then have "path \<notin> set (map fst ws)" by (simp add: map_of_eq_None_iff)
    with paths have "path \<notin> set (map fst ws')" by (metis mset_eq_setD)
    then have "map_of ws' path = None" by (simp add: map_of_eq_None_iff)
    with None show ?thesis by simp
  next
    case (Some e)
    then have "(path, e) \<in># mset ws" by (simp add: map_of_SomeD)
    with rel obtain w' where "w' \<in># mset ws'" and "same_entry (path, e) w'"
      by (blast dest: rel_mset_member)
    then obtain e' where "(path, e') \<in> set ws'" and "same_bodies e e'"
      by (cases w') (simp add: same_entry_iff)
    with dist' have "map_of ws' path = Some e'" by simp
    with Some \<open>same_bodies e e'\<close> show ?thesis by simp
  qed
qed

lemma compare_json_structures_writes:
  "distinct (map fst (find_differences rank d1 d2 [])) \<Longrightarrow>
   distinct (map fst (find_differences rank' d1 d2 []))"
proof -
  have "mset (map fst (find_differences rank' d1 d2 [])) = mset (map fst (find_differences rank d1 d2 []))"
    using find_differences_mset [of rank' d1 d2 "[]" rank] by (metis mset_map)
  then show "distinct (map fst (find_differences rank d1 d2 [])) \<Longrightarrow>
    distinct (map fst (find_differences rank' d1 d2 []))"
    by (metis mset_eq_imp_distinct_iff)
qed

lemma iter_set_listed: "iter_set listed ks = ks"
proof -
  have "listed ks = (\<lambda>key. 0)" by (simp add: fun_eq_iff listed_def)
  then show ?thesis by (simp add: iter_set_def sort_key_const)
qed

text \<open>
  What does not depend on the order: the assignments \<^verbatim>\<open>find_differences\<close> makes are the
  same, as a collection, in every order of iteration, and they have the same paths and the
  same content when the keys of the dictionaries in either document are reordered. The
  resulting dictionary has the same logical content in both cases provided that no two
  assignments are to the same path.
\<close>

lemma compare_json_structures_order:
  assumes "same_content d1 e1" and "same_content d2 e2"
  shows "mset (find_differences rank' d1 d2 path) = mset (find_differences rank d1 d2 path)
    \<and> rel_mset same_entry (mset (find_differences rank d1 d2 path))
         (mset (find_differences rank' e1 e2 path))
    \<and> (distinct (map fst (find_differences rank d1 d2 [])) \<longrightarrow>
         map_of (compare_json_structures rank' d1 d2) = map_of (compare_json_structures rank d1 d2)
         \<and> (\<forall>p. rel_option same_bodies (map_of (compare_json_structures rank d1 d2) p)
                  (map_of (compare_json_structures rank' e1 e2) p)))"
proof (intro conjI impI allI)
  show "mset (find_differences rank' d1 d2 path) = mset (find_differences rank d1 d2 path)"
    by (rule find_differences_mset)
  show "rel_mset same_entry (mset (find_differences rank d1 d2 path))
         (mset (find_differences rank' e1 e2 path))"
    using assms by (rule find_differences_related)
next
  assume dist: "distinct (map fst (find_differences rank d1 d2 []))"
  then have dist': "distinct (map fst (find_differences rank' d1 d2 []))"
    by (rule compare_json_structures_writes)
  have "set (find_differences rank' d1 d2 []) = set (find_differences rank d1 d2 [])"
    using find_differences_mset [of rank' d1 d2 "[]" rank] by (rule mset_eq_setD)
  with dist dist' show "map_of (compare_json_structures rank' d1 d2)
      = map_of (compare_json_structures rank d1 d2)"
    by (simp add: compare_json_structures_map_of map_of_inject_set)
  fix p
  have rel: "rel_mset same_entry (mset (find_differences rank d1 d2 []))
         (mset (find_differences rank' e1 e2 []))"
    using assms by (rule find_differences_related)
  have "image_mset fst (mset (find_differences rank d1 d2 []))
      = image_mset fst (mset (find_differences rank' e1 e2 []))"
    using rel by (rule rel_mset_image) (simp add: same_entry_iff)
  then have "mset (map fst (find_differences rank d1 d2 []))
      = mset (map fst (find_differences rank' e1 e2 []))" by simp
  with dist have diste: "distinct (map fst (find_differences rank' e1 e2 []))"
    by (metis mset_eq_imp_distinct_iff)
  show "rel_option same_bodies (map_of (compare_json_structures rank d1 d2) p)
                  (map_of (compare_json_structures rank' e1 e2) p)"
    using map_of_related [OF rel dist, of p] dist diste
    by (simp add: compare_json_structures_map_of)
qed

lemma compare_json_structures_order_example:
  "same_content (JObj [(''a'', JNum 1), (''b'', JNum 2)]) (JObj [(''b'', JNum 2), (''a'', JNum 1)])
   \<and> distinct (map fst (find_differences listed
         (JObj [(''a'', JNum 1), (''b'', JNum 2)]) (JObj [(''a'', JNum 5), (''c'', JNull)]) []))
   \<and> map_of (compare_json_structures reversed
         (JObj [(''a'', JNum 1), (''b'', JNum 2)]) (JObj [(''a'', JNum 5), (''c'', JNull)]))
     = map_of (compare_json_structures listed
         (JObj [(''a'', JNum 1), (''b'', JNum 2)]) (JObj [(''a'', JNum 5), (''c'', JNull)]))
   \<and> rel_option same_bodies
       (map_of (compare_json_structures listed
         (JObj [(''a'', JNum 1), (''b'', JNum 2)]) (JObj [(''a'', JNum 5), (''c'', JNull)])) ''b'')
       (map_of (compare_json_structures reversed
         (JObj [(''b'', JNum 2), (''a'', JNum 1)]) (JObj [(''a'', JNum 5), (''c'', JNull)])) ''b'')"
proof -
  let ?d1 = "JObj [(''a'', JNum 1), (''b'', JNum 2)]"
  let ?e1 = "JObj [(''b'', JNum 2), (''a'', JNum 1)]"
  let ?d2 = "JObj [(''a'', JNum 5), (''c'', JNull)]"
  have h1: "same_content ?d1 ?e1" by (auto simp: keys_def item_def)
  have h2: "same_content ?d2 ?d2" by simp
  have h3: "distinct (map fst (find_differences listed ?d1 ?d2 []))"
    by (simp add: keys_def item_def iter_set_listed key_path_def)
  from compare_json_structures_order [OF h1 h2, of reversed "[]" listed] h1 h3
  show ?thesis by blast
qed

text \<open>
  Claim C8: the content of the result does not depend on the order in which the keys are
  iterated, nor on the order of the keys in the documents. The code breaks it:
  \<^verbatim>\<open>find_differences\<close> does not escape the keys, so the key \<^verbatim>\<open>a/b\<close> and the key \<^verbatim>\<open>b\<close> under
  \<^verbatim>\<open>a\<close> are both assigned to the path \<^verbatim>\<open>a/b\<close>, and of the two differences found the one
  assigned last stays. Which one that is depends on the order of iteration, and on the order
  of the keys in the documents.
\<close>

theorem order_collision_counterexample:
  "compare_json_structures listed
     (JObj [(''a/b'', JNum 1), (''a'', JObj [(''b'', JNum 2)])])
     (JObj [(''a/b'', JNum 3), (''a'', JObj [(''b'', JNum 4)])])
     = [(''a/b'', \<lparr>body1 = JNum 2, body2 = JNum 4\<rparr>)]
   \<and> compare_json_structures reversed
     (JObj [(''a/b'', JNum 1), (''a'', JObj [(''b'', JNum 2)])])
     (JObj [(''a/b'', JNum 3), (''a'', JObj [(''b'', JNum 4)])])
     = [(''a/b'', \<lparr>body1 = JNum 1, body2 = JNum 3\<rparr>)]
   \<and> compare_json_structures listed
     (JObj [(''a'', JObj [(''b'', JNum 2)]), (''a/b'', JNum 1)])
     (JObj [(''a'', JObj [(''b'', JNum 4)]), (''a/b'', JNum 3)])
     = [(''a/b'', \<lparr>body1 = JNum 1, body2 = JNum 3\<rparr>)]"
  by (simp add: compare_json_structures_def keys_def item_def iter_set_def listed_def
      reversed_def key_path_def)



lemma find_differences_key_call:
  "key \<in> set (keys d1) \<Longrightarrow> key \<in> set (keys d2) \<Longrightarrow>
   set (find_differences rank (item d1 key) (item d2 key) (key_path path key))
     \<subseteq> set (find_differences rank (JObj d1) (JObj d2) path)"
  by (auto simp: Let_def intro!: bexI [of _ key])

lemma find_differences_index_call:
  "i < length d1 \<Longrightarrow> i < length d2 \<Longrightarrow>
   set (find_differences rank (d1 ! i) (d2 ! i) (index_path path i))
     \<subseteq> set (find_differences rank (JArr d1) (JArr d2) path)"
  by (auto simp: Let_def intro!: bexI [of _ i])

lemma find_differences_reaches:
  "nodes_at d1 d2 steps = Some (v1, v2) \<Longrightarrow>
   set (find_differences rank v1 v2 (path_of path steps)) \<subseteq> set (find_differences rank d1 d2 path)"
proof (induction steps arbitrary: d1 d2 path)
  case Nil
  then show ?case by simp
next
  case (Cons s steps)
  show ?case
  proof (cases s)
    case (Key key)
    with Cons.prems obtain o1 o2 where d: "d1 = JObj o1" "d2 = JObj o2"
      and k: "key \<in> set (keys o1)" "key \<in> set (keys o2)"
      and n: "nodes_at (item o1 key) (item o2 key) steps = Some (v1, v2)"
      by (cases d1; cases d2) (auto split: if_splits)
    have "set (find_differences rank v1 v2 (path_of (key_path path key) steps))
        \<subseteq> set (find_differences rank (item o1 key) (item o2 key) (key_path path key))"
      by (rule Cons.IH [OF n])
    also have "\<dots> \<subseteq> set (find_differences rank (JObj o1) (JObj o2) path)"
      by (rule find_differences_key_call [OF k])
    finally show ?thesis unfolding d Key by (simp only: path_of.simps)
  next
    case (Index i)
    with Cons.prems obtain a1 a2 where d: "d1 = JArr a1" "d2 = JArr a2"
      and k: "i < length a1" "i < length a2"
      and n: "nodes_at (a1 ! i) (a2 ! i) steps = Some (v1, v2)"
      by (cases d1; cases d2) (auto split: if_splits)
    have "set (find_differences rank v1 v2 (path_of (index_path path i) steps))
        \<subseteq> set (find_differences rank (a1 ! i) (a2 ! i) (index_path path i))"
      by (rule Cons.IH [OF n])
    also have "\<dots> \<subseteq> set (find_differences rank (JArr a1) (JArr a2) path)"
      by (rule find_differences_index_call [OF k])
    finally show ?thesis unfolding d Index by (simp only: path_of.simps)
  qed
qed

lemma map_of_only:
  "(p, e) \<in> set ws \<Longrightarrow> count_list (map fst ws) p = 1 \<Longrightarrow> map_of ws p = Some e"
proof (induction ws)
  case Nil
  then show ?case by simp
next
  case (Cons w ws)
  show ?case
  proof (cases "fst w = p")
    case True
    with Cons.prems(2) have "count_list (map fst ws) p = 0" by simp
    then have "p \<notin> set (map fst ws)" by (simp add: count_list_0_iff)
    then have "(p, e) \<notin> set ws" by force
    with Cons.prems(1) have "w = (p, e)" by simp
    then show ?thesis by simp
  next
    case False
    with Cons.prems have "(p, e) \<in> set ws" and "count_list (map fst ws) p = 1" by auto
    with Cons.IH False show ?thesis by (cases w) simp
  qed
qed

lemma compare_json_structures_lookup:
  assumes "(p, e) \<in> set (find_differences rank d1 d2 [])"
    and "count_list (map fst (find_differences rank d1 d2 [])) p = 1"
  shows "map_of (compare_json_structures rank d1 d2) p = Some e"
proof -
  let ?ws = "find_differences rank d1 d2 []"
  have "map_of (compare_json_structures rank d1 d2) = map_of (rev ?ws)"
    by (simp add: compare_json_structures_def map_of_fold_update)
  moreover from assms have "map_of (rev ?ws) p = Some e"
    by (intro map_of_only) (simp_all add: rev_map [symmetric])
  ultimately show ?thesis by simp
qed

text \<open>
  Claim C4, as the code has it. Let the two documents have, at the end of a way that
  \<^verbatim>\<open>find_differences\<close> goes down, nodes of different shapes (dictionary against list,
  dictionary against scalar, list against scalar), or two scalars with \<^verbatim>\<open>d1 != d2\<close> in
  Python. Then the call made for these nodes makes exactly one assignment, at the path of
  the way, of the two whole values, and none for anything below them; the assignment is
  among those made for the documents; and the result of \<^verbatim>\<open>compare_json_structures\<close> holds
  exactly this entry at the path, provided that no other assignment is made to the same
  path.
\<close>

theorem compare_json_structures_mismatch:
  assumes "nodes_at d1 d2 steps = Some (v1, v2)"
    and "kind_of v1 \<noteq> kind_of v2
         \<or> (kind_of v1 = Scalar \<and> kind_of v2 = Scalar \<and> py_ne v1 v2)"
  shows "find_differences rank v1 v2 (path_of [] steps)
           = [(path_of [] steps, \<lparr>body1 = v1, body2 = v2\<rparr>)]
    \<and> (path_of [] steps, \<lparr>body1 = v1, body2 = v2\<rparr>) \<in> set (find_differences rank d1 d2 [])
    \<and> (count_list (map fst (find_differences rank d1 d2 [])) (path_of [] steps) = 1 \<longrightarrow>
         map_of (compare_json_structures rank d1 d2) (path_of [] steps)
           = Some \<lparr>body1 = v1, body2 = v2\<rparr>)"
proof -
  have one: "find_differences rank v1 v2 (path_of [] steps)
           = [(path_of [] steps, \<lparr>body1 = v1, body2 = v2\<rparr>)]"
    using assms(2) by (rule find_differences_flat)
  with find_differences_reaches [OF assms(1), of rank "[]"]
  have mem: "(path_of [] steps, \<lparr>body1 = v1, body2 = v2\<rparr>) \<in> set (find_differences rank d1 d2 [])"
    by simp
  from one mem compare_json_structures_lookup [OF mem] show ?thesis by blast
qed

theorem compare_json_structures_mismatch_witness:
  "find_differences listed (JObj [(''y'', JNum 1)]) (JArr [JNum 1]) ''x[1]''
     = [(''x[1]'', \<lparr>body1 = JObj [(''y'', JNum 1)], body2 = JArr [JNum 1]\<rparr>)]
   \<and> map_of (compare_json_structures listed
        (JObj [(''x'', JArr [JNull, JObj [(''y'', JNum 1)]]), (''z'', JStr ''u'')])
        (JObj [(''x'', JArr [JNull, JArr [JNum 1]]), (''z'', JStr ''v'')])) ''x[1]''
     = Some \<lparr>body1 = JObj [(''y'', JNum 1)], body2 = JArr [JNum 1]\<rparr>"
proof -
  let ?d1 = "JObj [(''x'', JArr [JNull, JObj [(''y'', JNum 1)]]), (''z'', JStr ''u'')]"
  let ?d2 = "JObj [(''x'', JArr [JNull, JArr [JNum 1]]), (''z'', JStr ''v'')]"
  have p: "path_of [] [Key ''x'', Index 1] = ''x[1]''"
    by (simp add: key_path_def index_path_def digit_def)
  have h1: "nodes_at ?d1 ?d2 [Key ''x'', Index 1] = Some (JObj [(''y'', JNum 1)], JArr [JNum 1])"
    by (simp add: keys_def item_def)
  have h2: "kind_of (JObj [(''y'', JNum 1)]) \<noteq> kind_of (JArr [JNum 1])
     \<or> (kind_of (JObj [(''y'', JNum 1)]) = Scalar \<and> kind_of (JArr [JNum 1]) = Scalar
         \<and> py_ne (JObj [(''y'', JNum 1)]) (JArr [JNum 1]))" by simp
  have h3: "count_list (map fst (find_differences listed ?d1 ?d2 [])) ''x[1]'' = 1"
    by (simp add: keys_def item_def iter_set_listed key_path_def index_path_def digit_def)
  from compare_json_structures_mismatch [OF h1 h2, of listed] h3
  show ?thesis unfolding p by blast
qed

text \<open>
  The claim as stated fails twice. For the unequal scalars \<^verbatim>\<open>false\<close> and \<^verbatim>\<open>0\<close> at the
  path \<^verbatim>\<open>a\<close> nothing is recorded. And the entry of the list against \<^verbatim>\<open>null\<close> at the key
  \<^verbatim>\<open>a/b\<close> is replaced by the entry of another difference, assigned to the same path.
\<close>

theorem mismatch_counterexample:
  "kind_of (JBool False) = Scalar \<and> kind_of (JNum 0) = Scalar \<and> JBool False \<noteq> JNum 0
   \<and> compare_json_structures listed (JObj [(''a'', JBool False)]) (JObj [(''a'', JNum 0)]) = []
   \<and> nodes_at (JObj [(''a/b'', JArr [JNum 1]), (''a'', JObj [(''b'', JNum 2)])])
        (JObj [(''a/b'', JNull), (''a'', JObj [(''b'', JNum 4)])]) [Key ''a/b'']
      = Some (JArr [JNum 1], JNull)
   \<and> kind_of (JArr [JNum 1]) \<noteq> kind_of JNull
   \<and> compare_json_structures listed
        (JObj [(''a/b'', JArr [JNum 1]), (''a'', JObj [(''b'', JNum 2)])])
        (JObj [(''a/b'', JNull), (''a'', JObj [(''b'', JNum 4)])])
      = [(''a/b'', \<lparr>body1 = JNum 2, body2 = JNum 4\<rparr>)]"
  by (simp add: compare_json_structures_def keys_def item_def iter_set_listed key_path_def)

lemma key_path_extends: "\<exists>rest. key_path path key = path @ rest"
  by (simp add: key_path_def)

lemma index_path_extends: "\<exists>rest. index_path path i = path @ rest"
  by (simp add: index_path_def)

lemma in_concat_map: "e \<in> set (concat (map f xs)) \<Longrightarrow> \<exists>x \<in> set xs. e \<in> set (f x)"
  by auto

lemma find_differences_extends:
  "(p, e) \<in> set (find_differences rank d1 d2 path) \<Longrightarrow> \<exists>rest. p = path @ rest"
proof (induction rank d1 d2 path arbitrary: p e rule: find_differences_induct3)
  case (Obj rank d1 d2 path)
  from Obj.prems [unfolded find_differences.simps, THEN in_concat_map]
  obtain key where mem: "(p, e) \<in> set (let new_path = key_path path key in
       if key \<in> set (keys d1) \<and> key \<in> set (keys d2) then
         find_differences rank (item d1 key) (item d2 key) new_path
       else if key \<in> set (keys d1) then
         [(new_path, \<lparr>body1 = item d1 key, body2 = JStr ''Key not found''\<rparr>)]
       else
         [(new_path, \<lparr>body1 = JStr ''Key not found'', body2 = item d2 key\<rparr>)])"
    by blast
  have "\<exists>rest. p = key_path path key @ rest"
  proof (cases "key \<in> set (keys d1) \<and> key \<in> set (keys d2)")
    case True
    with mem have "(p, e) \<in> set (find_differences rank (item d1 key) (item d2 key) (key_path path key))"
      by (simp add: Let_def)
    with True show ?thesis by (intro Obj.IH [of key p e]) simp_all
  next
    case False
    with mem have "p = key_path path key" by (auto simp: Let_def split: if_splits)
    then show ?thesis by simp
  qed
  with key_path_extends [of path key] show ?case by auto
next
  case (Arr rank d1 d2 path)
  from Arr.prems [unfolded find_differences.simps Let_def, THEN in_concat_map]
  obtain i where mem: "(p, e) \<in> set (if i < length d1 \<and> i < length d2 then
          find_differences rank (d1 ! i) (d2 ! i) (index_path path i)
        else if i < length d1 then
          [(index_path path i, \<lparr>body1 = d1 ! i, body2 = JStr ''Element not found''\<rparr>)]
        else
          [(index_path path i, \<lparr>body1 = JStr ''Element not found'', body2 = d2 ! i\<rparr>)])"
    by blast
  have "\<exists>rest. p = index_path path i @ rest"
  proof (cases "i < length d1 \<and> i < length d2")
    case True
    with mem have "(p, e) \<in> set (find_differences rank (d1 ! i) (d2 ! i) (index_path path i))"
      by simp
    with True show ?thesis by (intro Arr.IH [of i p e]) simp_all
  next
    case False
    with mem have "p = index_path path i" by (auto split: if_splits)
    then show ?thesis by simp
  qed
  with index_path_extends [of path i] show ?case by auto
next
  case (Other rank d1 d2 path)
  then show ?case by (auto simp: find_differences_other split: if_splits)
qed

lemma root_object_paths:
  assumes "(p, e) \<in> set (find_differences rank (JObj d1) (JObj d2) [])"
  shows "\<exists>key rest. (key \<in> set (keys d1) \<or> key \<in> set (keys d2)) \<and> p = key @ rest"
proof -
  from assms [unfolded find_differences.simps, THEN in_concat_map]
  obtain key where ks: "key \<in> set (iter_set rank (remdups (keys d1 @ keys d2)))" and
    mem: "(p, e) \<in> set (let new_path = key_path [] key in
       if key \<in> set (keys d1) \<and> key \<in> set (keys d2) then
         find_differences rank (item d1 key) (item d2 key) new_path
       else if key \<in> set (keys d1) then
         [(new_path, \<lparr>body1 = item d1 key, body2 = JStr ''Key not found''\<rparr>)]
       else
         [(new_path, \<lparr>body1 = JStr ''Key not found'', body2 = item d2 key\<rparr>)])"
    by blast
  from ks have k: "key \<in> set (keys d1) \<or> key \<in> set (keys d2)" by simp
  from mem have "\<exists>rest. p = key_path [] key @ rest"
    using find_differences_extends [of p e rank "item d1 key" "item d2 key" "key_path [] key"]
    by (auto simp: Let_def split: if_splits)
  then have "\<exists>rest. p = key @ rest" by (simp add: key_path_def)
  with k show ?thesis by blast
qed

lemma root_array_paths:
  assumes "(p, e) \<in> set (find_differences rank (JArr d1) (JArr d2) [])"
  shows "\<exists>i rest. (i < length d1 \<or> i < length d2) \<and> p = ''['' @ str_nat i @ '']'' @ rest"
proof -
  from assms [unfolded find_differences.simps Let_def, THEN in_concat_map]
  obtain i where ks: "i \<in> set [0 ..< max (length d1) (length d2)]" and
    mem: "(p, e) \<in> set (if i < length d1 \<and> i < length d2 then
          find_differences rank (d1 ! i) (d2 ! i) (index_path [] i)
        else if i < length d1 then
          [(index_path [] i, \<lparr>body1 = d1 ! i, body2 = JStr ''Element not found''\<rparr>)]
        else
          [(index_path [] i, \<lparr>body1 = JStr ''Element not found'', body2 = d2 ! i\<rparr>)])"
    by blast
  from ks have k: "i < length d1 \<or> i < length d2" by auto
  from mem have "\<exists>rest. p = index_path [] i @ rest"
    using find_differences_extends [of p e rank "d1 ! i" "d2 ! i" "index_path [] i"]
    by (auto split: if_splits)
  then have "\<exists>rest. p = ''['' @ str_nat i @ '']'' @ rest" by (simp add: index_path_def)
  with k show ?thesis by blast
qed

text \<open>
  Claim C10, as the code has it. When the two documents are of different shapes at the root,
  or are two scalars with \<^verbatim>\<open>d1 != d2\<close> in Python, the result has exactly one entry, and its
  key is the empty string. For two dictionaries at the root, a key that only one of them
  has is assigned at the path that is the key itself, and the values of a key that both
  have are compared with the key as the path. For two lists at the root the same holds of
  an index and the path \<^verbatim>\<open>[index]\<close>. Every path assigned for two dictionaries begins with one
  of their keys, and every path assigned for two lists with \<^verbatim>\<open>[index]\<close> for one of their
  indices: no separator is in front.
\<close>

theorem compare_json_structures_root_paths:
  "(kind_of d1 \<noteq> kind_of d2 \<or> (kind_of d1 = Scalar \<and> kind_of d2 = Scalar \<and> py_ne d1 d2)
      \<longrightarrow> compare_json_structures rank d1 d2 = [([], \<lparr>body1 = d1, body2 = d2\<rparr>)])
   \<and> (key \<in> set (keys o1) \<and> key \<notin> set (keys o2) \<longrightarrow>
        (key, \<lparr>body1 = item o1 key, body2 = JStr ''Key not found''\<rparr>)
          \<in> set (find_differences rank (JObj o1) (JObj o2) []))
   \<and> (key \<notin> set (keys o1) \<and> key \<in> set (keys o2) \<longrightarrow>
        (key, \<lparr>body1 = JStr ''Key not found'', body2 = item o2 key\<rparr>)
          \<in> set (find_differences rank (JObj o1) (JObj o2) []))
   \<and> (key \<in> set (keys o1) \<and> key \<in> set (keys o2) \<longrightarrow>
        set (find_differences rank (item o1 key) (item o2 key) key)
          \<subseteq> set (find_differences rank (JObj o1) (JObj o2) []))
   \<and> (i < length a1 \<and> length a2 \<le> i \<longrightarrow>
        (''['' @ str_nat i @ '']'', \<lparr>body1 = a1 ! i, body2 = JStr ''Element not found''\<rparr>)
          \<in> set (find_differences rank (JArr a1) (JArr a2) []))
   \<and> (length a1 \<le> i \<and> i < length a2 \<longrightarrow>
        (''['' @ str_nat i @ '']'', \<lparr>body1 = JStr ''Element not found'', body2 = a2 ! i\<rparr>)
          \<in> set (find_differences rank (JArr a1) (JArr a2) []))
   \<and> (i < length a1 \<and> i < length a2 \<longrightarrow>
        set (find_differences rank (a1 ! i) (a2 ! i) (''['' @ str_nat i @ '']''))
          \<subseteq> set (find_differences rank (JArr a1) (JArr a2) []))
   \<and> ((p, e) \<in> set (find_differences rank (JObj o1) (JObj o2) []) \<longrightarrow>
        (\<exists>k rest. (k \<in> set (keys o1) \<or> k \<in> set (keys o2)) \<and> p = k @ rest))
   \<and> ((p, e) \<in> set (find_differences rank (JArr a1) (JArr a2) []) \<longrightarrow>
        (\<exists>j rest. (j < length a1 \<or> j < length a2) \<and> p = ''['' @ str_nat j @ '']'' @ rest))"
proof -
  have kp: "key_path [] key = key" by (simp add: key_path_def)
  have ip: "index_path [] i = ''['' @ str_nat i @ '']''" by (simp add: index_path_def)
  have c1: "compare_json_structures rank d1 d2 = [([], \<lparr>body1 = d1, body2 = d2\<rparr>)]"
    if "kind_of d1 \<noteq> kind_of d2 \<or> (kind_of d1 = Scalar \<and> kind_of d2 = Scalar \<and> py_ne d1 d2)"
    using find_differences_flat [OF that, of rank "[]"]
    by (simp add: compare_json_structures_def)
  have c2: "(key, \<lparr>body1 = item o1 key, body2 = JStr ''Key not found''\<rparr>)
          \<in> set (find_differences rank (JObj o1) (JObj o2) [])"
    if "key \<in> set (keys o1) \<and> key \<notin> set (keys o2)"
  proof -
    from that have "key \<in> set (keys o1)" and "key \<notin> set (keys o2)" by simp_all
    from missing_key_recorded(1) [OF this, of "[]" rank] show ?thesis unfolding kp .
  qed
  have c3: "(key, \<lparr>body1 = JStr ''Key not found'', body2 = item o2 key\<rparr>)
          \<in> set (find_differences rank (JObj o1) (JObj o2) [])"
    if "key \<notin> set (keys o1) \<and> key \<in> set (keys o2)"
  proof -
    from that have "key \<notin> set (keys o1)" and "key \<in> set (keys o2)" by simp_all
    from missing_key_recorded(2) [OF this, of "[]" rank] show ?thesis unfolding kp .
  qed
  have c4: "set (find_differences rank (item o1 key) (item o2 key) key)
          \<subseteq> set (find_differences rank (JObj o1) (JObj o2) [])"
    if "key \<in> set (keys o1) \<and> key \<in> set (keys o2)"
  proof -
    from that have "key \<in> set (keys o1)" and "key \<in> set (keys o2)" by simp_all
    from find_differences_key_call [OF this, of rank "[]"] show ?thesis unfolding kp .
  qed
  have c5: "(''['' @ str_nat i @ '']'', \<lparr>body1 = a1 ! i, body2 = JStr ''Element not found''\<rparr>)
          \<in> set (find_differences rank (JArr a1) (JArr a2) [])"
    if "i < length a1 \<and> length a2 \<le> i"
  proof -
    from that have "i < length a1" and "length a2 \<le> i" by simp_all
    from missing_index_recorded(1) [OF this, of "[]" rank] show ?thesis unfolding ip .
  qed
  have c6: "(''['' @ str_nat i @ '']'', \<lparr>body1 = JStr ''Element not found'', body2 = a2 ! i\<rparr>)
          \<in> set (find_differences rank (JArr a1) (JArr a2) [])"
    if "length a1 \<le> i \<and> i < length a2"
  proof -
    from that have "length a1 \<le> i" and "i < length a2" by simp_all
    from missing_index_recorded(2) [OF this, of "[]" rank] show ?thesis unfolding ip .
  qed
  have c7: "set (find_differences rank (a1 ! i) (a2 ! i) (''['' @ str_nat i @ '']''))
          \<subseteq> set (find_differences rank (JArr a1) (JArr a2) [])"
    if "i < length a1 \<and> i < length a2"
  proof -
    from that have "i < length a1" and "i < length a2" by simp_all
    from find_differences_index_call [OF this, of rank "[]"] show ?thesis unfolding ip .
  qed
  note c8 = root_object_paths [of p e rank o1 o2]
  note c9 = root_array_paths [of p e rank a1 a2]
  from c1 c2 c3 c4 c5 c6 c7 c8 c9 show ?thesis by (intro conjI impI) blast+
qed

theorem compare_json_structures_root_paths_witness:
  "compare_json_structures listed (JObj [(''k'', JNull)]) (JNum 7)
     = [([], \<lparr>body1 = JObj [(''k'', JNull)], body2 = JNum 7\<rparr>)]
   \<and> (''key'', \<lparr>body1 = JStr ''Key not found'', body2 = JNum 1\<rparr>)
        \<in> set (find_differences listed (JObj []) (JObj [(''key'', JNum 1)]) [])
   \<and> (''[2]'', \<lparr>body1 = JNum 3, body2 = JStr ''Element not found''\<rparr>)
        \<in> set (find_differences listed (JArr [JNum 1, JNum 2, JNum 3]) (JArr [JNum 1, JNum 2]) [])
   \<and> set (find_differences listed (JNum 1) (JNum 2) ''[0]'')
        \<subseteq> set (find_differences listed (JArr [JNum 1]) (JArr [JNum 2]) [])"
  using compare_json_structures_root_paths
      [of "JObj [(''k'', JNull)]" "JNum 7" listed "''key''" "[]" "[(''key'', JNum 1)]"
          2 "[JNum 1, JNum 2, JNum 3]" "[JNum 1, JNum 2]"]
    compare_json_structures_root_paths
      [of JNull JNull listed "''key''" "[]" "[]" 0 "[JNum 1]" "[JNum 2]"]
  by (simp add: keys_def item_def digit_def)

text \<open>
  The claim as stated fails for the unequal scalars \<^verbatim>\<open>true\<close> and \<^verbatim>\<open>1\<close> at the root: the
  result is empty.
\<close>

theorem root_bool_counterexample:
  "kind_of (JBool True) = Scalar \<and> kind_of (JNum 1) = Scalar \<and> JBool True \<noteq> JNum 1
   \<and> compare_json_structures listed (JBool True) (JNum 1) = []"
  by (simp add: compare_json_structures_def)




lemma decode_entry_simp [simp]:
  "decode_entry (p, \<lparr>body1 = a, body2 = b\<rparr>) = (p, \<lparr>body1 = decode a, body2 = decode b\<rparr>)"
  by (simp add: decode_entry_def)



lemma decode_sentinel [simp]:
  "decode (JStr ''Key not found'') = Missing" "decode (JStr ''Element not found'') = Missing"
  by (simp_all add: decode_def is_sentinel_def)







section \<open>Properties of the summary\<close>

lemma py_max_Inr: "xs \<noteq> [] \<Longrightarrow> py_max xs = Inr (Max (set xs))"
proof -
  assume "xs \<noteq> []"
  then obtain x rest where xs: "xs = x # rest" by (cases xs) auto
  have "fold max rest x = Max (set (x # rest))"
    by (simp only: Max.set_eq_fold)
  with xs show ?thesis by (simp add: py_max_def)
qed

lemma next_count_absent: "lv \<notin> fst ` set structure \<Longrightarrow> next_count structure lv = 0"
  by (induction "structure") (auto simp: next_count_def)

lemma next_count_present:
  "lv \<in> fst ` set structure \<Longrightarrow> (lv, next_count structure lv) \<in> set structure"
  by (induction "structure") (auto simp: next_count_def)

text \<open>
  Claim C6. \<^verbatim>\<open>summarize_comparison\<close> fails whenever either of its two level sequences
  is empty: it raises \<^verbatim>\<open>ValueError\<close> and returns no summary.
\<close>

theorem summarize_comparison_empty:
  "structure1 = [] \<or> structure2 = [] \<Longrightarrow>
     summarize_comparison structure1 structure2 detailed_differences = Inl ValueError"
  by (auto simp: summarize_comparison_def py_max_def Let_def split: list.splits sum.splits)

theorem summarize_comparison_empty_witness:
  "summarize_comparison [] [(1, 1)] [] = Inl ValueError
   \<and> summarize_comparison [(1, 1)] [] [] = Inl ValueError"
  using summarize_comparison_empty [of "[]" "[(1, 1)]" "[]"]
    summarize_comparison_empty [of "[(1, 1)]" "[]" "[]"]
  by simp

text \<open>
  Claim C7. For non-empty level sequences \<^verbatim>\<open>summarize_comparison\<close> returns a summary in
  which the total of each document is the sum of its level counts; the detailed comparison
  has one row for every level from 1 up to the greatest level of either sequence, in
  ascending order; a row holds for each document a count the document records at that level,
  or 0 when it records none, and the difference of the two counts; the differences are
  passed on unchanged.
\<close>

theorem summarize_comparison_summary:
  assumes "structure1 \<noteq> []" and "structure2 \<noteq> []"
  shows "\<exists>s. summarize_comparison structure1 structure2 detailed_differences = Inr s
    \<and> body1 (total_nodes s) = (\<Sum>(l, c) \<leftarrow> structure1. c)
    \<and> body2 (total_nodes s) = (\<Sum>(l, c) \<leftarrow> structure2. c)
    \<and> map level (detailed_comparison s) = [1 .. Max (fst ` (set structure1 \<union> set structure2))]
    \<and> (\<forall>row \<in> set (detailed_comparison s).
          (if level row \<in> fst ` set structure1
           then (level row, body1 row) \<in> set structure1 else body1 row = 0)
        \<and> (if level row \<in> fst ` set structure2
           then (level row, body2 row) \<in> set structure2 else body2 row = 0)
        \<and> difference row = body1 row - body2 row)
    \<and> differences s = detailed_differences"
proof -
  let ?M = "Max (fst ` (set structure1 \<union> set structure2))"
  let ?row = "\<lambda>lv. \<lparr>body1 = next_count structure1 lv, body2 = next_count structure2 lv,
                     level = lv, difference = next_count structure1 lv - next_count structure2 lv\<rparr>"
  let ?s = "\<lparr>total_nodes = \<lparr>body1 = sum_list (map snd structure1),
                                body2 = sum_list (map snd structure2)\<rparr>,
             detailed_comparison = map ?row [1 .. ?M],
             differences = detailed_differences\<rparr>"
  have m: "max (Max (set (map fst structure1))) (Max (set (map fst structure2))) = ?M"
    using assms by (simp add: image_Un Max_Un)
  have eq: "summarize_comparison structure1 structure2 detailed_differences = Inr ?s"
    using assms by (simp add: summarize_comparison_def py_max_Inr Let_def m del: set_map)
  have sums: "(\<Sum>(l, c) \<leftarrow> xs. c) = sum_list (map snd xs)" for xs :: "(int \<times> int) list"
    by (simp add: case_prod_unfold)
  have levels: "map level (detailed_comparison ?s) = [1 .. ?M]"
    by (simp add: o_def)
  have rows: "(if level row \<in> fst ` set structure1
           then (level row, body1 row) \<in> set structure1 else body1 row = 0)
        \<and> (if level row \<in> fst ` set structure2
           then (level row, body2 row) \<in> set structure2 else body2 row = 0)
        \<and> difference row = body1 row - body2 row"
    if "row \<in> set (detailed_comparison ?s)" for row
  proof -
    from that obtain lv where "row = ?row lv" by auto
    then show ?thesis
      by (simp add: next_count_absent next_count_present)
  qed
  have t1: "body1 (total_nodes ?s) = (\<Sum>(l, c) \<leftarrow> structure1. c)"
    and t2: "body2 (total_nodes ?s) = (\<Sum>(l, c) \<leftarrow> structure2. c)"
    and d: "differences ?s = detailed_differences"
    by (simp_all add: sums)
  from eq t1 t2 levels rows d show ?thesis by blast
qed

theorem summarize_comparison_summary_witness:
  "\<exists>s. summarize_comparison [(1, 1), (2, 2)] [(1, 1)] [] = Inr s
     \<and> body1 (total_nodes s) = 3 \<and> body2 (total_nodes s) = 1
     \<and> map level (detailed_comparison s) = [1, 2]
     \<and> differences s = []"
proof -
  have "Max (fst ` (set [(1, 1), (2, 2)] \<union> set [(1::int, 1::int)])) = 2" by simp
  moreover have "[1 .. 2::int] = [1, 2]" by (simp add: upto_rec1)
  ultimately show ?thesis
    using summarize_comparison_summary [of "[(1, 1), (2, 2)]" "[(1, 1)]" "[]"]
    by (elim exE conjE | simp)+
qed

end
